theory Spec2Isabelle
  imports Main "HOL-Library.Word"
begin

section \<open>Bytes, exceptions and the primitive codec\<close>

text \<open>
  A Python \<open>bytes\<close> value is a list of 8-bit words. Slices \<open>data[:n]\<close> and \<open>data[n:]\<close>
  are \<open>take n data\<close> and \<open>drop n data\<close>: like the Python slices they never fail and
  return what is there when the buffer is shorter.
\<close>

type_synonym byte = "8 word"
type_synonym bytes = "byte list"

text \<open>
  The exceptions of the code. \<open>AssertionError\<close> is the failing \<open>assert\<close> of
  \<open>disassemble\<close>, \<open>IndexError\<close> the read of \<open>inputs[0]\<close> on an empty list,
  \<open>TypeError\<close> the use of \<open>None\<close> where bytes are expected, \<open>StructError\<close> the
  \<open>struct.error\<close> of \<open>pack\<close> on a value out of range. \<open>TruncatedInput\<close> is the failure
  the specification gives to the decoders of the primitive codec.
\<close>

datatype error = TruncatedInput | AssertionError | IndexError | TypeError | StructError

text \<open>Little-endian unsigned integers, as \<open>struct\<close> reads and writes them.\<close>

fun le_decode :: "bytes \<Rightarrow> nat" where
  "le_decode [] = 0"
| "le_decode (b # bs) = unat b + 256 * le_decode bs"

fun le_encode :: "nat \<Rightarrow> nat \<Rightarrow> bytes" where
  "le_encode 0 v = []"
| "le_encode (Suc n) v = of_nat (v mod 256) # le_encode n (v div 256)"

text \<open>
  \<open>struct.pack('<L', v)\<close> is \<open>pack 4 v\<close> and \<open>struct.pack('<Q', v)\<close> is \<open>pack 8 v\<close>:
  the library raises \<open>struct.error\<close> when \<open>v\<close> does not fit the unsigned width.
\<close>

definition pack :: "nat \<Rightarrow> int \<Rightarrow> error + bytes" where
  "pack w v = (if 0 \<le> v \<and> v < 2 ^ (8 * w) then Inr (le_encode w (nat v)) else Inl StructError)"

text \<open>
  Modelled from the spec: \<open>BitcoinEncoding.funpack\<close> is inherited from the package's
  \<open>__init__\<close> module, which is not among the sources. The specification's
  \<open>decode_fixed\<close> reads a little-endian integer of the given width and fails with
  \<open>TruncatedInput\<close> if the buffer is shorter than the width. \<open>funpack w bs\<close> stands for
  \<open>self.funpack('<L', bs)\<close> (\<open>w = 4\<close>) and \<open>self.funpack('<Q', bs)\<close> (\<open>w = 8\<close>);
  every call site passes a slice of at most \<open>w\<close> bytes.
\<close>

definition funpack :: "nat \<Rightarrow> bytes \<Rightarrow> error + int" where
  "funpack w bs = (if length bs < w then Inl TruncatedInput else Inr (int (le_decode (take w bs))))"

text \<open>
  Modelled from the spec: \<open>BitcoinEncoding.varlen_decode\<close> is not among the sources. The
  specification's \<open>decode_varint\<close> reads the discriminant byte: 0 to 252 is the value
  itself, a marker byte announces 2, 4 or 8 little-endian bytes, and it fails with
  \<open>TruncatedInput\<close> if fewer bytes remain than the width requires. The markers are those
  of the Bitcoin wire format the class documents: 0xfd, 0xfe, 0xff.
\<close>

definition varlen_width :: "byte \<Rightarrow> nat" where
  "varlen_width b = (if b = 0xfd then 2 else if b = 0xfe then 4 else 8)"

fun varlen_decode :: "bytes \<Rightarrow> error + (nat \<times> bytes)" where
  "varlen_decode [] = Inl TruncatedInput"
| "varlen_decode (b # rest) =
     (if unat b \<le> 252 then Inr (unat b, rest)
      else if length rest < varlen_width b then Inl TruncatedInput
      else Inr (le_decode (take (varlen_width b) rest), drop (varlen_width b) rest))"

text \<open>
  Modelled from the spec: \<open>BitcoinEncoding.varlen_encode\<close> is not among the sources. The
  specification's \<open>encode_varint\<close> takes an unsigned 64-bit value and chooses the smallest
  of the four tiers. A value that is not an unsigned 64-bit integer has no encoding:
  the model answers with the packer's \<open>StructError\<close>.
\<close>

definition varlen_encode :: "nat \<Rightarrow> error + bytes" where
  "varlen_encode v =
     (if v \<le> 252 then Inr [of_nat v]
      else if v \<le> 65535 then Inr (0xfd # le_encode 2 v)
      else if v \<le> 4294967295 then Inr (0xfe # le_encode 4 v)
      else if v < 2 ^ 64 then Inr (0xff # le_encode 8 v)
      else Inl StructError)"

section \<open>The data model\<close>

text \<open>The named tuples \<open>Input\<close> and \<open>Output\<close>, and the fields of a \<open>Transaction\<close> object.
  \<open>priv_raw\<close> and \<open>priv_hash\<close> are the attributes \<open>_raw\<close> and \<open>_hash\<close>.\<close>

record Input =
  prevout_hash :: bytes
  prevout_idx :: int
  script_sig :: bytes
  seqno :: int

record Output =
  amount :: int
  script_pub_key :: bytes

record Transaction =
  priv_raw :: "bytes option"
  inputs :: "Input list"
  outputs :: "Output list"
  locktime :: int
  fees :: "int option"
  version :: int
  priv_hash :: "bytes option"

definition nullprev :: bytes where
  "nullprev = replicate 32 0"

text \<open>Python truthiness of the optional arguments: \<open>None\<close>, \<open>b''\<close> and \<open>0\<close> are false.\<close>

fun truthy_bytes :: "bytes option \<Rightarrow> bool" where
  "truthy_bytes None = False"
| "truthy_bytes (Some bs) = (bs \<noteq> [])"

fun truthy_int :: "int option \<Rightarrow> bool" where
  "truthy_int None = False"
| "truthy_int (Some n) = (n \<noteq> 0)"

section \<open>disassemble\<close>

text \<open>
  One pass of the loop over the inputs (lines 56 to 70): the slices never fail, the three
  decoders do. It returns the record and the rest of the buffer.
\<close>

definition read_input :: "bytes \<Rightarrow> error + (Input \<times> bytes)" where
  "read_input data =
     (case funpack 4 (take 4 (drop 32 data)) of
        Inl e \<Rightarrow> Inl e
      | Inr idx \<Rightarrow>
         (case varlen_decode (drop 36 data) of
            Inl e \<Rightarrow> Inl e
          | Inr (ss_len, data1) \<Rightarrow>
             (case funpack 4 (take 4 (drop ss_len data1)) of
                Inl e \<Rightarrow> Inl e
              | Inr sq \<Rightarrow>
                 Inr (\<lparr>prevout_hash = take 32 data, prevout_idx = idx,
                       script_sig = take ss_len data1, seqno = sq\<rparr>,
                      drop (ss_len + 4) data1))))"

text \<open>
  \<open>for i in range(input_count)\<close>: the accumulator is \<open>self.inputs\<close>, which the method
  appends to as it goes, so that a failure returns the inputs read so far.
\<close>

fun read_inputs :: "nat \<Rightarrow> bytes \<Rightarrow> Input list \<Rightarrow> error option \<times> Input list \<times> bytes" where
  "read_inputs 0 data acc = (None, acc, data)"
| "read_inputs (Suc n) data acc =
     (case read_input data of
        Inl e \<Rightarrow> (Some e, acc, data)
      | Inr (inp, data') \<Rightarrow> read_inputs n data' (acc @ [inp]))"

text \<open>One pass of the loop over the outputs (lines 75 to 81).\<close>

definition read_output :: "bytes \<Rightarrow> error + (Output \<times> bytes)" where
  "read_output data =
     (case funpack 8 (take 8 data) of
        Inl e \<Rightarrow> Inl e
      | Inr amt \<Rightarrow>
         (case varlen_decode (drop 8 data) of
            Inl e \<Rightarrow> Inl e
          | Inr (ps_len, data1) \<Rightarrow>
             Inr (\<lparr>amount = amt, script_pub_key = take ps_len data1\<rparr>, drop ps_len data1)))"

fun read_outputs :: "nat \<Rightarrow> bytes \<Rightarrow> Output list \<Rightarrow> error option \<times> Output list \<times> bytes" where
  "read_outputs 0 data acc = (None, acc, data)"
| "read_outputs (Suc n) data acc =
     (case read_output data of
        Inl e \<Rightarrow> (Some e, acc, data)
      | Inr (out, data') \<Rightarrow> read_outputs n data' (acc @ [out]))"

text \<open>
  The method returns the error raised, if any, and the object as the call leaves it:
  the assignments made before an exception stay. The three stages are lines 83 to 91,
  lines 72 to 81 and lines 39 to 70.
\<close>

definition disassemble_tail :: "Transaction \<Rightarrow> bool \<Rightarrow> bytes \<Rightarrow> error option \<times> Transaction" where
  "disassemble_tail self dump_raw data =
     (case funpack 4 (take 4 data) of
        Inl e \<Rightarrow> (Some e, self)
      | Inr lt \<Rightarrow>
         (let self1 = self\<lparr>locktime := lt, priv_hash := None\<rparr>
          in if length data \<noteq> 4 then (Some AssertionError, self1)
             else (None, if dump_raw then self1\<lparr>priv_raw := None\<rparr> else self1)))"

definition disassemble_outputs :: "Transaction \<Rightarrow> bool \<Rightarrow> bytes \<Rightarrow> error option \<times> Transaction" where
  "disassemble_outputs self dump_raw data =
     (case varlen_decode data of
        Inl e \<Rightarrow> (Some e, self)
      | Inr (output_count, data1) \<Rightarrow>
         (case read_outputs output_count data1 [] of
            (Some e, outs, data2) \<Rightarrow> (Some e, self\<lparr>outputs := outs\<rparr>)
          | (None, outs, data2) \<Rightarrow> disassemble_tail (self\<lparr>outputs := outs\<rparr>) dump_raw data2))"

definition disassemble ::
  "Transaction \<Rightarrow> bytes option \<Rightarrow> bool \<Rightarrow> int option \<Rightarrow> error option \<times> Transaction" where
  "disassemble self raw_arg dump_raw fees_arg =
     (let self1 = (if truthy_int fees_arg then self\<lparr>fees := fees_arg\<rparr> else self);
          self2 = (if truthy_bytes raw_arg then self1\<lparr>priv_raw := raw_arg\<rparr> else self1)
      in case priv_raw self2 of
           None \<Rightarrow> (Some TypeError, self2)
         | Some data \<Rightarrow>
            (case funpack 4 (take 4 data) of
               Inl e \<Rightarrow> (Some e, self2)
             | Inr v \<Rightarrow>
                (case varlen_decode (drop 4 data) of
                   Inl e \<Rightarrow> (Some e, self2\<lparr>version := v\<rparr>)
                 | Inr (input_count, data1) \<Rightarrow>
                    (case read_inputs input_count data1 [] of
                       (Some e, ins, data2) \<Rightarrow> (Some e, self2\<lparr>version := v, inputs := ins\<rparr>)
                     | (None, ins, data2) \<Rightarrow>
                         disassemble_outputs (self2\<lparr>version := v, inputs := ins\<rparr>) dump_raw data2))))"

text \<open>The constructor: the defaults, then \<open>disassemble()\<close> if a non-empty buffer is given.\<close>

definition init :: "bytes option \<Rightarrow> error option \<times> Transaction" where
  "init raw_arg =
     (let self = \<lparr>priv_raw = raw_arg, inputs = [], outputs = [], locktime = 0, fees = None,
                  version = 1, priv_hash = None\<rparr>
      in if truthy_bytes raw_arg then disassemble self None False None else (None, self))"

section \<open>is\_coinbase, assemble, raw and hash\<close>

definition is_coinbase :: "Transaction \<Rightarrow> error + bool" where
  "is_coinbase self =
     (case inputs self of
        [] \<Rightarrow> Inl IndexError
      | inp # _ \<Rightarrow> Inr (prevout_hash inp = nullprev))"

text \<open>The bytes one input and one output contribute (lines 108 to 112 and 116 to 118).\<close>

definition assemble_input :: "Input \<Rightarrow> error + bytes" where
  "assemble_input inp =
     (case pack 4 (prevout_idx inp) of
        Inl e \<Rightarrow> Inl e
      | Inr idx \<Rightarrow>
         (case varlen_encode (length (script_sig inp)) of
            Inl e \<Rightarrow> Inl e
          | Inr len \<Rightarrow>
             (case pack 4 (seqno inp) of
                Inl e \<Rightarrow> Inl e
              | Inr sq \<Rightarrow> Inr (prevout_hash inp @ idx @ len @ script_sig inp @ sq))))"

fun assemble_inputs :: "Input list \<Rightarrow> bytes \<Rightarrow> error + bytes" where
  "assemble_inputs [] data = Inr data"
| "assemble_inputs (inp # ins) data =
     (case assemble_input inp of
        Inl e \<Rightarrow> Inl e
      | Inr bs \<Rightarrow> assemble_inputs ins (data @ bs))"

definition assemble_output :: "Output \<Rightarrow> error + bytes" where
  "assemble_output out =
     (case pack 8 (amount out) of
        Inl e \<Rightarrow> Inl e
      | Inr amt \<Rightarrow>
         (case varlen_encode (length (script_pub_key out)) of
            Inl e \<Rightarrow> Inl e
          | Inr len \<Rightarrow> Inr (amt @ len @ script_pub_key out)))"

fun assemble_outputs :: "Output list \<Rightarrow> bytes \<Rightarrow> error + bytes" where
  "assemble_outputs [] data = Inr data"
| "assemble_outputs (out # outs) data =
     (case assemble_output out of
        Inl e \<Rightarrow> Inl e
      | Inr bs \<Rightarrow> assemble_outputs outs (data @ bs))"

text \<open>
  \<open>assemble\<close> builds the local \<open>data\<close> and assigns \<open>_raw\<close> and \<open>_hash\<close> at the end only,
  so an exception leaves the object as it was. It returns the bytes and the object.
\<close>

definition assemble :: "Transaction \<Rightarrow> error + (bytes \<times> Transaction)" where
  "assemble self =
     (case pack 4 (version self) of
        Inl e \<Rightarrow> Inl e
      | Inr d0 \<Rightarrow>
     (case varlen_encode (length (inputs self)) of
        Inl e \<Rightarrow> Inl e
      | Inr n \<Rightarrow>
     (case assemble_inputs (inputs self) (d0 @ n) of
        Inl e \<Rightarrow> Inl e
      | Inr d1 \<Rightarrow>
     (case varlen_encode (length (outputs self)) of
        Inl e \<Rightarrow> Inl e
      | Inr m \<Rightarrow>
     (case assemble_outputs (outputs self) (d1 @ m) of
        Inl e \<Rightarrow> Inl e
      | Inr d2 \<Rightarrow>
     (case pack 4 (locktime self) of
        Inl e \<Rightarrow> Inl e
      | Inr lt \<Rightarrow>
         Inr (d2 @ lt, self\<lparr>priv_raw := Some (d2 @ lt), priv_hash := None\<rparr>)))))))"

text \<open>The property \<open>raw\<close>: assemble if \<open>_raw\<close> is \<open>None\<close>, then return \<open>_raw\<close>.\<close>

definition raw :: "Transaction \<Rightarrow> error + (bytes \<times> Transaction)" where
  "raw self =
     (case priv_raw self of
        None \<Rightarrow> assemble self
      | Some r \<Rightarrow> Inr (r, self))"

text \<open>
  The property \<open>hash\<close>. \<open>sha256\<close> is the library's digest, taken as a parameter; it is
  applied to the attribute \<open>_raw\<close> itself, and \<open>sha256(None)\<close> raises \<open>TypeError\<close>.
\<close>

definition hash :: "(bytes \<Rightarrow> bytes) \<Rightarrow> Transaction \<Rightarrow> error + (bytes \<times> Transaction)" where
  "hash sha256 self =
     (case priv_hash self of
        Some h \<Rightarrow> Inr (h, self)
      | None \<Rightarrow>
         (case priv_raw self of
            None \<Rightarrow> Inl TypeError
          | Some r \<Rightarrow>
             (let h = sha256 (sha256 r) in Inr (h, self\<lparr>priv_hash := Some h\<rparr>))))"

section \<open>Canonical buffers\<close>

text \<open>
  The varint at the head of a buffer is canonical when encoding the decoded value gives
  back the bytes the decoder consumed. \<open>canonical_varints\<close> walks a buffer as
  \<open>disassemble\<close> does and asks this of the input count, of every script length and of
  the output count.
\<close>

definition canon_varint :: "bytes \<Rightarrow> bool" where
  "canon_varint data =
     (case varlen_decode data of
        Inl e \<Rightarrow> False
      | Inr (v, rest) \<Rightarrow> varlen_encode v = Inr (take (length data - length rest) data))"

fun canon_inputs :: "nat \<Rightarrow> bytes \<Rightarrow> bool" where
  "canon_inputs 0 data = True"
| "canon_inputs (Suc n) data =
     (canon_varint (drop 36 data) \<and>
      (case read_input data of Inl e \<Rightarrow> False | Inr (inp, data') \<Rightarrow> canon_inputs n data'))"

fun canon_outputs :: "nat \<Rightarrow> bytes \<Rightarrow> bool" where
  "canon_outputs 0 data = True"
| "canon_outputs (Suc n) data =
     (canon_varint (drop 8 data) \<and>
      (case read_output data of Inl e \<Rightarrow> False | Inr (out, data') \<Rightarrow> canon_outputs n data'))"

definition canonical_varints :: "bytes \<Rightarrow> bool" where
  "canonical_varints data =
     (canon_varint (drop 4 data) \<and>
      (case varlen_decode (drop 4 data) of
         Inl e \<Rightarrow> False
       | Inr (input_count, data1) \<Rightarrow>
          canon_inputs input_count data1 \<and>
          (case read_inputs input_count data1 [] of
             (Some e, ins, data2) \<Rightarrow> False
           | (None, ins, data2) \<Rightarrow>
              canon_varint data2 \<and>
              (case varlen_decode data2 of
                 Inl e \<Rightarrow> False
               | Inr (output_count, data3) \<Rightarrow> canon_outputs output_count data3))))"

section \<open>Example values\<close>

text \<open>An input that spends nothing, as the first input of a coinbase transaction does.\<close>

definition coinbase_input :: Input where
  "coinbase_input = \<lparr>prevout_hash = replicate 32 0, prevout_idx = 4294967295, script_sig = [1, 2], seqno = 0\<rparr>"

text \<open>
  Byte buffers: the smallest transaction (version 1, no input, no output, lock time 0);
  the 43 bytes of \<open>coinbase_input\<close>; a buffer that declares two inputs and holds one; a
  buffer that declares two outputs and holds one; a complete transaction followed by one
  more byte.
\<close>

definition tx_empty :: bytes where
  "tx_empty = [1,0,0,0, 0, 0, 0,0,0,0]"

definition coinbase_input_bytes :: bytes where
  "coinbase_input_bytes = replicate 32 0 @ [0xff,0xff,0xff,0xff, 2, 1, 2, 0,0,0,0]"

definition tx_two_declared :: bytes where
  "tx_two_declared = [1,0,0,0, 2] @ coinbase_input_bytes"

definition tx_two_outputs_declared :: bytes where
  "tx_two_outputs_declared = [1,0,0,0, 1] @ coinbase_input_bytes @ [2, 5,0,0,0,0,0,0,0, 0]"

definition tx_trailing :: bytes where
  "tx_trailing = [2,0,0,0, 0, 0, 7,0,0,0, 0xff]"

text \<open>
  The smallest transaction with its input count written in three bytes; a transaction with
  one input and one output; a buffer whose only input declares a script of five bytes and
  holds two.
\<close>

definition tx_noncanonical :: bytes where
  "tx_noncanonical = [1,0,0,0, 0xfd,0,0, 0, 0,0,0,0]"

definition tx_one :: bytes where
  "tx_one = [1,0,0,0, 1] @ coinbase_input_bytes @ [1, 5,0,0,0,0,0,0,0, 1, 0x51, 9,0,0,0]"

definition tx_short_script :: bytes where
  "tx_short_script = [1,0,0,0, 1] @ replicate 32 0 @ [0xff,0xff,0xff,0xff, 5, 1, 2]"

section \<open>Properties of the primitive codec\<close>

lemma length_le_encode [simp]: "length (le_encode n v) = n"
  by (induction n arbitrary: v) simp_all

lemma le_decode_bound: "le_decode bs < 256 ^ length bs"
proof (induction bs)
  case Nil show ?case by simp
next
  case (Cons b bs)
  have "unat b < 256" using unsigned_less [of b, where 'a=nat] by simp
  with Cons show ?case by simp
qed

lemma le_decode_le_encode: "v < 256 ^ n \<Longrightarrow> le_decode (le_encode n v) = v"
proof (induction n arbitrary: v)
  case 0 then show ?case by simp
next
  case (Suc n)
  have "v div 256 < 256 ^ n" using Suc.prems by (simp add: less_mult_imp_div_less mult.commute)
  with Suc.IH have "le_decode (le_encode n (v div 256)) = v div 256" by blast
  moreover have "unat (of_nat (v mod 256) :: byte) = v mod 256"
    by (simp add: unat_of_nat)
  ultimately show ?case by simp
qed

lemma le_encode_le_decode: "le_encode (length bs) (le_decode bs) = bs"
proof (induction bs)
  case Nil show ?case by simp
next
  case (Cons b bs)
  have b: "unat b < 256" using unsigned_less [of b, where 'a=nat] by simp
  then have "(unat b + 256 * le_decode bs) mod 256 = unat b" by simp
  moreover have "(unat b + 256 * le_decode bs) div 256 = le_decode bs" using b by simp
  ultimately show ?case using Cons by simp
qed

lemma varlen_width_simps [simp]:
  "varlen_width 0xfd = 2" "varlen_width 0xfe = 4" "varlen_width 0xff = 8"
  by (simp_all add: varlen_width_def)

lemma varlen_decode_encode:
  assumes "v < 2 ^ 64"
  shows "\<exists>bs. varlen_encode v = Inr bs \<and> varlen_decode bs = Inr (v, [])"
proof -
  consider "v \<le> 252" | "252 < v" "v \<le> 65535" | "65535 < v" "v \<le> 4294967295" | "4294967295 < v"
    by linarith
  then show ?thesis
  proof cases
    case 1
    then have "unat (of_nat v :: byte) = v" by (simp add: unat_of_nat)
    with 1 show ?thesis by (simp add: varlen_encode_def)
  next
    case 2
    then have "le_decode (le_encode 2 v) = v" by (intro le_decode_le_encode) simp
    with 2 show ?thesis by (simp add: varlen_encode_def)
  next
    case 3
    then have "le_decode (le_encode 4 v) = v" by (intro le_decode_le_encode) simp
    with 3 show ?thesis by (simp add: varlen_encode_def)
  next
    case 4
    have "le_decode (le_encode 8 v) = v" using assms by (intro le_decode_le_encode) simp
    with 4 assms show ?thesis by (simp add: varlen_encode_def)
  qed
qed

lemma varlen_width_cases: "varlen_width b = 2 \<or> varlen_width b = 4 \<or> varlen_width b = 8"
  by (simp add: varlen_width_def)

lemma varlen_decode_empty_rest:
  assumes "varlen_decode bs = Inr (v, [])"
  shows "(length bs = 1 \<and> v \<le> 252) \<or> (length bs = 3 \<and> v < 65536) 
     \<or> (length bs = 5 \<and> v < 4294967296) \<or> length bs = 9"
proof (cases bs)
  case Nil with assms show ?thesis by simp
next
  case (Cons b rest)
  show ?thesis
  proof (cases "unat b \<le> 252")
    case True with assms Cons show ?thesis by auto
  next
    case False
    let ?w = "varlen_width b"
    from False assms Cons have w: "?w \<le> length rest" and v: "v = le_decode (take ?w rest)" 
      and d: "drop ?w rest = []"
      by (auto split: if_splits)
    then have len: "length rest = ?w" by simp
    have "v < 256 ^ ?w" using le_decode_bound [of "take ?w rest"] v w by simp
    with len Cons varlen_width_cases [of b] show ?thesis by auto
  qed
qed

text \<open>C2: for every unsigned 64-bit integer \<open>v\<close>, decoding the encoding of \<open>v\<close> gives \<open>v\<close> and
  an empty remainder; the encoding has the width of the smallest tier that holds \<open>v\<close>
  (1, 3, 5 or 9 bytes), and no byte sequence that decodes to \<open>v\<close> with nothing left over
  is shorter.\<close>

theorem varint_roundtrip_minimal:
  assumes "v < 2 ^ 64"
  shows "\<exists>bs. varlen_encode v = Inr bs \<and> varlen_decode bs = Inr (v, [])
           \<and> length bs = (if v \<le> 252 then 1 else if v \<le> 65535 then 3
                           else if v \<le> 4294967295 then 5 else 9)
           \<and> (\<forall>bs'. varlen_decode bs' = Inr (v, []) \<longrightarrow> length bs \<le> length bs')"
proof -
  from varlen_decode_encode [OF assms] obtain bs
    where enc: "varlen_encode v = Inr bs" and dec: "varlen_decode bs = Inr (v, [])" by blast
  have len: "length bs = (if v \<le> 252 then 1 else if v \<le> 65535 then 3
                           else if v \<le> 4294967295 then 5 else 9)"
    using enc assms by (auto simp: varlen_encode_def split: if_splits)
  have "length bs \<le> length bs'" if "varlen_decode bs' = Inr (v, [])" for bs'
    using varlen_decode_empty_rest [OF that] len by (auto split: if_splits)
  with enc dec len show ?thesis by blast
qed

theorem varint_roundtrip_minimal_witness:
  "(300::nat) < 2 ^ 64 \<and>
   (\<exists>bs. varlen_encode 300 = Inr bs \<and> varlen_decode bs = Inr (300, []) \<and> length bs = 3
      \<and> (\<forall>bs'. varlen_decode bs' = Inr (300, []) \<longrightarrow> length bs \<le> length bs'))"
  using varint_roundtrip_minimal [of 300] by simp

section \<open>The errors of disassemble, coinbase detection and the fee\<close>

lemma funpack_error: "funpack w bs = Inl e \<Longrightarrow> e = TruncatedInput"
  by (simp add: funpack_def split: if_splits)

lemma varlen_decode_error: "varlen_decode bs = Inl e \<Longrightarrow> e = TruncatedInput"
  by (cases bs) (simp_all split: if_splits)

lemma read_input_error: "read_input d = Inl e \<Longrightarrow> e = TruncatedInput"
  by (auto simp: read_input_def split: sum.splits prod.splits dest: funpack_error varlen_decode_error)

lemma read_output_error: "read_output d = Inl e \<Longrightarrow> e = TruncatedInput"
  by (auto simp: read_output_def split: sum.splits prod.splits dest: funpack_error varlen_decode_error)

lemma read_inputs_error: "read_inputs n d acc = (Some e, ins, d') \<Longrightarrow> e = TruncatedInput"
  by (induction n arbitrary: d acc) (auto split: sum.splits prod.splits dest: read_input_error)

lemma read_outputs_error: "read_outputs n d acc = (Some e, outs, d') \<Longrightarrow> e = TruncatedInput"
  by (induction n arbitrary: d acc) (auto split: sum.splits prod.splits dest: read_output_error)

lemma disassemble_tail_error:
  "fst (disassemble_tail s dr d) = Some e \<Longrightarrow> e = TruncatedInput \<or> e = AssertionError"
  by (auto simp: disassemble_tail_def Let_def split: sum.splits if_splits dest: funpack_error)

lemma disassemble_outputs_error:
  "fst (disassemble_outputs s dr d) = Some e \<Longrightarrow> e = TruncatedInput \<or> e = AssertionError"
  by (auto simp: disassemble_outputs_def split: sum.splits prod.splits option.splits
      dest: varlen_decode_error read_outputs_error disassemble_tail_error)

lemma disassemble_error:
  "fst (disassemble s r dr f) = Some e \<Longrightarrow> e = TruncatedInput \<or> e = AssertionError \<or> e = TypeError"
  by (auto simp: disassemble_def Let_def split: sum.splits prod.splits option.splits
      dest: funpack_error varlen_decode_error read_inputs_error disassemble_outputs_error)

text \<open>C8: for every transaction with at least one input, \<open>is_coinbase\<close> returns whether the
  previous-output hash of the first input equals 32 zero bytes.\<close>

theorem is_coinbase_first_input:
  "inputs self \<noteq> [] \<Longrightarrow> is_coinbase self = Inr (prevout_hash (hd (inputs self)) = replicate 32 0)"
  by (cases "inputs self") (simp_all add: is_coinbase_def nullprev_def)

theorem is_coinbase_first_input_witness:
  "inputs ((snd (init None))\<lparr>inputs := [coinbase_input]\<rparr>) \<noteq> [] \<and>
   is_coinbase ((snd (init None))\<lparr>inputs := [coinbase_input]\<rparr>) = Inr True"
  using is_coinbase_first_input [of "(snd (init None))\<lparr>inputs := [coinbase_input]\<rparr>"]
  by (simp add: coinbase_input_def)

text \<open>C9: on a transaction without inputs \<open>is_coinbase\<close> does not return a boolean: it fails
  with the \<open>IndexError\<close> of reading \<open>inputs[0]\<close>, an error that no call of
  \<open>disassemble\<close> ever raises.\<close>

theorem is_coinbase_empty_inputs:
  "inputs self = [] \<Longrightarrow>
     is_coinbase self = Inl IndexError \<and> fst (disassemble s raw_arg dump_raw fees_arg) \<noteq> Some IndexError"
  using disassemble_error [of s raw_arg dump_raw fees_arg IndexError]
  by (auto simp: is_coinbase_def)

theorem is_coinbase_empty_inputs_witness:
  "inputs (snd (init None)) = [] \<and> is_coinbase (snd (init None)) = Inl IndexError"
  using is_coinbase_empty_inputs [of "snd (init None)"] by (simp add: init_def)

lemma disassemble_tail_fees: "fees (snd (disassemble_tail s dr d)) = fees s"
  by (simp add: disassemble_tail_def Let_def split: sum.splits)

lemma disassemble_outputs_fees: "fees (snd (disassemble_outputs s dr d)) = fees s"
  by (simp add: disassemble_outputs_def disassemble_tail_fees split: sum.splits prod.splits option.splits)

lemma disassemble_fees_truthy:
  "fees (snd (disassemble s r dr f)) = (if truthy_int f then f else fees s)"
  by (simp add: disassemble_def Let_def disassemble_outputs_fees
      split: sum.splits prod.splits option.splits)

text \<open>C10: whatever the outcome of \<open>disassemble\<close>, the stored fee afterwards is the fee
  argument if that is truthy, and the previously stored fee if the argument is \<open>None\<close>
  or 0.\<close>

theorem disassemble_fees:
  "fees (snd (disassemble self raw_arg dump_raw fees_arg)) =
     (if fees_arg = None \<or> fees_arg = Some 0 then fees self else fees_arg)"
  by (cases fees_arg) (simp_all add: disassemble_fees_truthy)

theorem disassemble_fees_witness:
  "fees (snd (disassemble ((snd (init None))\<lparr>fees := Some 7\<rparr>) (Some [1,0,0,0, 0, 0, 0,0,0,0]) False (Some 0))) = Some 7"
  using disassemble_fees [of "(snd (init None))\<lparr>fees := Some 7\<rparr>" "Some [1,0,0,0, 0, 0, 0,0,0,0]" False "Some 0"]
  by (simp add: init_def)

section \<open>What a successful pass consumes\<close>

lemma funpack_Inr_iff: "funpack w bs = Inr v \<longleftrightarrow> w \<le> length bs \<and> v = int (le_decode (take w bs))"
  by (auto simp: funpack_def)

lemma funpack_Inl_iff: "funpack w bs = Inl e \<longleftrightarrow> length bs < w \<and> e = TruncatedInput"
  by (auto simp: funpack_def)

lemma varlen_decode_suffix:
  "varlen_decode d = Inr (v, rest) \<Longrightarrow> length rest < length d \<and> rest = drop (length d - length rest) d"
  by (cases d) (auto split: if_splits)

lemma varlen_decode_append:
  "varlen_decode d = Inr (v, rest) \<Longrightarrow> varlen_decode (d @ x) = Inr (v, rest @ x)"
  by (cases d) (auto split: if_splits)

lemma read_input_InrE:
  assumes "read_input d = Inr (inp, d')"
  obtains L d1 where "36 \<le> length d" "varlen_decode (drop 36 d) = Inr (L, d1)" "L + 4 \<le> length d1"
    "inp = \<lparr>prevout_hash = take 32 d, prevout_idx = int (le_decode (take 4 (drop 32 d))),
            script_sig = take L d1, seqno = int (le_decode (take 4 (drop L d1)))\<rparr>"
    "d' = drop (L + 4) d1"
  using assms
  by (auto simp: read_input_def funpack_Inr_iff split: sum.splits prod.splits)

lemma read_output_InrE:
  assumes "read_output d = Inr (out, d')"
  obtains P d1 where "8 \<le> length d" "varlen_decode (drop 8 d) = Inr (P, d1)"
    "out = \<lparr>amount = int (le_decode (take 8 d)), script_pub_key = take P d1\<rparr>"
    "d' = drop P d1"
  using assms
  by (auto simp: read_output_def funpack_Inr_iff split: sum.splits prod.splits)

lemma varlen_decode_length: "varlen_decode d = Inr (v, rest) \<Longrightarrow> length rest < length d"
  by (cases d) (auto split: if_splits)

lemma read_input_length:
  assumes "read_input d = Inr (inp, d')"
  shows "length d' + 41 \<le> length d"
proof -
  from assms obtain L d1 where d: "36 \<le> length d" and v: "varlen_decode (drop 36 d) = Inr (L, d1)"
    and l: "L + 4 \<le> length d1" and d': "d' = drop (L + 4) d1"
    by (rule read_input_InrE)
  from varlen_decode_length [OF v] have "length d1 < length d - 36" by simp
  with d l d' show ?thesis by simp
qed

lemma read_output_length:
  assumes "read_output d = Inr (out, d')"
  shows "length d' + 9 \<le> length d"
proof -
  from assms obtain P d1 where d: "8 \<le> length d" and v: "varlen_decode (drop 8 d) = Inr (P, d1)"
    and d': "d' = drop P d1"
    by (rule read_output_InrE)
  from varlen_decode_length [OF v] have "length d1 < length d - 8" by simp
  with d d' show ?thesis by simp
qed

lemma read_inputs_length:
  "read_inputs n d acc = (None, ins, d') \<Longrightarrow> length d' + 41 * n \<le> length d"
proof (induction n arbitrary: d acc)
  case 0 then show ?case by simp
next
  case (Suc n)
  from Suc.prems obtain inp d1 where r: "read_input d = Inr (inp, d1)"
    and rest: "read_inputs n d1 (acc @ [inp]) = (None, ins, d')"
    by (auto split: sum.splits prod.splits)
  from Suc.IH [OF rest] read_input_length [OF r] show ?case by simp
qed

lemma read_outputs_length:
  "read_outputs n d acc = (None, outs, d') \<Longrightarrow> length d' + 9 * n \<le> length d"
proof (induction n arbitrary: d acc)
  case 0 then show ?case by simp
next
  case (Suc n)
  from Suc.prems obtain out d1 where r: "read_output d = Inr (out, d1)"
    and rest: "read_outputs n d1 (acc @ [out]) = (None, outs, d')"
    by (auto split: sum.splits prod.splits)
  from Suc.IH [OF rest] read_output_length [OF r] show ?case by simp
qed

section \<open>Evaluation on concrete buffers\<close>

lemma le_encode_numeral:
  "le_encode (numeral k) v = of_nat (v mod 256) # le_encode (pred_numeral k) (v div 256)"
  by (simp add: numeral_eq_Suc [of k])

lemma read_inputs_numeral:
  "read_inputs (numeral k) data acc =
     (case read_input data of
        Inl e \<Rightarrow> (Some e, acc, data)
      | Inr (inp, data') \<Rightarrow> read_inputs (pred_numeral k) data' (acc @ [inp]))"
  by (simp add: numeral_eq_Suc [of k])

lemma read_outputs_numeral:
  "read_outputs (numeral k) data acc =
     (case read_output data of
        Inl e \<Rightarrow> (Some e, acc, data)
      | Inr (out, data') \<Rightarrow> read_outputs (pred_numeral k) data' (acc @ [out]))"
  by (simp add: numeral_eq_Suc [of k])

lemma read_input_coinbase: "read_input (coinbase_input_bytes @ rest) = Inr (coinbase_input, rest)"
  by (simp add: read_input_def funpack_def coinbase_input_bytes_def coinbase_input_def)

lemma read_input_Nil: "read_input [] = Inl TruncatedInput"
  by (simp add: read_input_def funpack_def)

lemma read_inputs_two_declared:
  "read_inputs 2 coinbase_input_bytes [] = (Some TruncatedInput, [coinbase_input], [])"
  using read_input_coinbase [of "[]"] by (simp add: read_inputs_numeral read_input_Nil)

section \<open>The state after a failure\<close>

lemma disassemble_tail_failure:
  assumes "fst (disassemble_tail s dr d) = Some e"
  shows "priv_raw (snd (disassemble_tail s dr d)) = priv_raw s
     \<and> (e \<noteq> AssertionError \<longrightarrow> locktime (snd (disassemble_tail s dr d)) = locktime s
            \<and> priv_hash (snd (disassemble_tail s dr d)) = priv_hash s)"
  using assms by (auto simp: disassemble_tail_def Let_def split: sum.splits if_splits)

lemma disassemble_outputs_failure:
  assumes "fst (disassemble_outputs s dr d) = Some e"
  shows "priv_raw (snd (disassemble_outputs s dr d)) = priv_raw s
     \<and> (e \<noteq> AssertionError \<longrightarrow> locktime (snd (disassemble_outputs s dr d)) = locktime s
            \<and> priv_hash (snd (disassemble_outputs s dr d)) = priv_hash s)"
proof (cases "varlen_decode d")
  case (Inl e') then show ?thesis by (simp add: disassemble_outputs_def)
next
  case (Inr p)
  obtain M d1 where p: "p = (M, d1)" by (cases p)
  obtain r outs d2 where ro: "read_outputs M d1 [] = (r, outs, d2)" by (cases "read_outputs M d1 []")
  show ?thesis
  proof (cases r)
    case None
    with Inr p ro have eq: "disassemble_outputs s dr d = disassemble_tail (s\<lparr>outputs := outs\<rparr>) dr d2"
      by (simp add: disassemble_outputs_def)
    from assms disassemble_tail_failure [of "s\<lparr>outputs := outs\<rparr>" dr d2 e] show ?thesis
      unfolding eq by simp
  next
    case (Some e') with Inr p ro show ?thesis by (simp add: disassemble_outputs_def)
  qed
qed

text \<open>C6, as amended: \<open>disassemble\<close> is not atomic, the assignments made before the exception
  stay. What a failed call does leave alone: the raw buffer is the supplied one (or the
  previous one if none is supplied) and is never discarded; the lock time and the cached
  hash keep their values unless the failure is the assertion on trailing bytes; the
  version, the inputs and the outputs keep theirs when the buffer is absent or shorter
  than 4 bytes.\<close>

theorem disassemble_failure_state:
  assumes "fst (disassemble self raw_arg dump_raw fees_arg) = Some e"
  shows "priv_raw (snd (disassemble self raw_arg dump_raw fees_arg)) =
           (if truthy_bytes raw_arg then raw_arg else priv_raw self)
     \<and> (e \<noteq> AssertionError \<longrightarrow>
           locktime (snd (disassemble self raw_arg dump_raw fees_arg)) = locktime self
         \<and> priv_hash (snd (disassemble self raw_arg dump_raw fees_arg)) = priv_hash self)
     \<and> ((case priv_raw (snd (disassemble self raw_arg dump_raw fees_arg)) of
            None \<Rightarrow> True | Some data \<Rightarrow> length data < 4) \<longrightarrow>
           version (snd (disassemble self raw_arg dump_raw fees_arg)) = version self
         \<and> inputs (snd (disassemble self raw_arg dump_raw fees_arg)) = inputs self
         \<and> outputs (snd (disassemble self raw_arg dump_raw fees_arg)) = outputs self)"
proof -
  define s1 where "s1 = (if truthy_int fees_arg then self\<lparr>fees := fees_arg\<rparr> else self)"
  define s2 where "s2 = (if truthy_bytes raw_arg then s1\<lparr>priv_raw := raw_arg\<rparr> else s1)"
  have raw2: "priv_raw s2 = (if truthy_bytes raw_arg then raw_arg else priv_raw self)"
    and keep: "locktime s2 = locktime self" "priv_hash s2 = priv_hash self"
      "version s2 = version self" "inputs s2 = inputs self" "outputs s2 = outputs self"
    by (simp_all add: s1_def s2_def)
  let ?R = "disassemble self raw_arg dump_raw fees_arg"
  have R: "?R =
     (case priv_raw s2 of
        None \<Rightarrow> (Some TypeError, s2)
      | Some data \<Rightarrow>
         (case funpack 4 (take 4 data) of
            Inl e \<Rightarrow> (Some e, s2)
          | Inr v \<Rightarrow>
             (case varlen_decode (drop 4 data) of
                Inl e \<Rightarrow> (Some e, s2\<lparr>version := v\<rparr>)
              | Inr (input_count, data1) \<Rightarrow>
                 (case read_inputs input_count data1 [] of
                    (Some e, ins, data2) \<Rightarrow> (Some e, s2\<lparr>version := v, inputs := ins\<rparr>)
                  | (None, ins, data2) \<Rightarrow>
                      disassemble_outputs (s2\<lparr>version := v, inputs := ins\<rparr>) dump_raw data2))))"
    by (simp only: disassemble_def s1_def s2_def Let_def)
  have main: "priv_raw (snd ?R) = priv_raw s2
     \<and> (e \<noteq> AssertionError \<longrightarrow> locktime (snd ?R) = locktime s2 \<and> priv_hash (snd ?R) = priv_hash s2)
     \<and> ((case priv_raw s2 of None \<Rightarrow> True | Some data \<Rightarrow> length data < 4) \<longrightarrow>
           version (snd ?R) = version s2 \<and> inputs (snd ?R) = inputs s2 \<and> outputs (snd ?R) = outputs s2)"
  proof (cases "priv_raw s2")
    case None
    then show ?thesis by (simp add: R)
  next
    case (Some data)
    show ?thesis
    proof (cases "length data < 4")
      case True
      with Some show ?thesis by (simp add: R funpack_def)
    next
      case False
      define v where "v = int (le_decode (take 4 data))"
      from False have fp: "funpack 4 (take 4 data) = Inr v" by (simp add: funpack_def v_def)
      show ?thesis
      proof (cases "varlen_decode (drop 4 data)")
        case (Inl e')
        with Some fp False show ?thesis by (simp add: R)
      next
        case (Inr p)
        obtain N d1 where p: "p = (N, d1)" by (cases p)
        obtain r ins d2 where ri: "read_inputs N d1 [] = (r, ins, d2)" by (cases "read_inputs N d1 []")
        show ?thesis
        proof (cases r)
          case (Some e')
          with \<open>priv_raw s2 = Some data\<close> fp Inr p ri False show ?thesis by (simp add: R)
        next
          case None
          with \<open>priv_raw s2 = Some data\<close> fp Inr p ri
          have eq: "?R = disassemble_outputs (s2\<lparr>version := v, inputs := ins\<rparr>) dump_raw d2"
            by (simp add: R)
          from assms disassemble_outputs_failure [of "s2\<lparr>version := v, inputs := ins\<rparr>" dump_raw d2 e]
          show ?thesis
            unfolding eq using \<open>priv_raw s2 = Some data\<close> False by simp
        qed
      qed
    qed
  qed
  from main raw2 keep show ?thesis by simp
qed

section \<open>Declared counts, and the hash without a raw buffer\<close>

lemma disassemble_buffer:
  assumes "4 < length data"
  shows "disassemble self (Some data) dump_raw fees_arg =
     (case varlen_decode (drop 4 data) of
        Inl e \<Rightarrow> (Some e, (if truthy_int fees_arg then self\<lparr>fees := fees_arg\<rparr> else self)
                    \<lparr>priv_raw := Some data, version := int (le_decode (take 4 data))\<rparr>)
      | Inr (input_count, data1) \<Rightarrow>
         (case read_inputs input_count data1 [] of
            (Some e, ins, data2) \<Rightarrow>
              (Some e, (if truthy_int fees_arg then self\<lparr>fees := fees_arg\<rparr> else self)
                 \<lparr>priv_raw := Some data, version := int (le_decode (take 4 data)), inputs := ins\<rparr>)
          | (None, ins, data2) \<Rightarrow>
              disassemble_outputs ((if truthy_int fees_arg then self\<lparr>fees := fees_arg\<rparr> else self)
                 \<lparr>priv_raw := Some data, version := int (le_decode (take 4 data)), inputs := ins\<rparr>)
                dump_raw data2))"
proof -
  from assms have "data \<noteq> []" by auto
  with assms show ?thesis
    by (simp add: disassemble_def Let_def funpack_def)
qed

lemma varlen_decode_drop4:
  assumes "varlen_decode (drop 4 data) = Inr p"
  shows "4 < length data"
proof (rule ccontr)
  assume "\<not> 4 < length data"
  then have "drop 4 data = []" by simp
  with assms show False by simp
qed

lemma disassemble_outputs_inputs: "inputs (snd (disassemble_outputs s dr d)) = inputs s"
  by (simp add: disassemble_outputs_def disassemble_tail_def Let_def
      split: sum.splits prod.splits option.splits)

text \<open>C5, as amended: \<open>disassemble\<close> has no check of a decoded count against the bytes that
  remain. When the remaining bytes cannot hold \<open>N\<close> inputs of the minimal 41 bytes, the
  call still fails, with \<open>TruncatedInput\<close> raised inside the loop, and the object holds the
  inputs read before the failure; likewise for \<open>M\<close> outputs of the minimal 9 bytes.\<close>

theorem disassemble_count_too_large:
  assumes "varlen_decode (drop 4 data) = Inr (N, d1)"
  shows "(length d1 < 41 * N \<longrightarrow>
            fst (disassemble self (Some data) dump_raw fees_arg) = Some TruncatedInput
          \<and> inputs (snd (disassemble self (Some data) dump_raw fees_arg)) = fst (snd (read_inputs N d1 [])))
       \<and> (\<forall>ins d2 M d3. read_inputs N d1 [] = (None, ins, d2) \<longrightarrow> varlen_decode d2 = Inr (M, d3) \<longrightarrow>
            length d3 < 9 * M \<longrightarrow>
            fst (disassemble self (Some data) dump_raw fees_arg) = Some TruncatedInput
          \<and> outputs (snd (disassemble self (Some data) dump_raw fees_arg)) = fst (snd (read_outputs M d3 [])))"
proof -
  note D = disassemble_buffer [OF varlen_decode_drop4 [OF assms], of self dump_raw fees_arg]
  have one: "fst (disassemble self (Some data) dump_raw fees_arg) = Some TruncatedInput
          \<and> inputs (snd (disassemble self (Some data) dump_raw fees_arg)) = fst (snd (read_inputs N d1 []))"
    if short: "length d1 < 41 * N"
  proof -
    obtain r ins d2 where ri: "read_inputs N d1 [] = (r, ins, d2)" by (cases "read_inputs N d1 []")
    show ?thesis
    proof (cases r)
      case None
      with ri read_inputs_length [of N d1 "[]" ins d2] short show ?thesis by simp
    next
      case (Some e)
      with ri read_inputs_error [of N d1 "[]" e ins d2] have "e = TruncatedInput" by simp
      with Some ri assms show ?thesis by (simp add: D)
    qed
  qed
  have two: "fst (disassemble self (Some data) dump_raw fees_arg) = Some TruncatedInput
          \<and> outputs (snd (disassemble self (Some data) dump_raw fees_arg)) = fst (snd (read_outputs M d3 []))"
    if ri: "read_inputs N d1 [] = (None, ins, d2)" and vd: "varlen_decode d2 = Inr (M, d3)"
      and short: "length d3 < 9 * M" for ins d2 M d3
  proof -
    obtain r outs d4 where ro: "read_outputs M d3 [] = (r, outs, d4)" by (cases "read_outputs M d3 []")
    show ?thesis
    proof (cases r)
      case None
      with ro read_outputs_length [of M d3 "[]" outs d4] short show ?thesis by simp
    next
      case (Some e)
      with ro read_outputs_error [of M d3 "[]" e outs d4] have "e = TruncatedInput" by simp
      with Some ro ri vd assms show ?thesis by (simp add: D disassemble_outputs_def)
    qed
  qed
  from one two show ?thesis by blast
qed

lemma read_output_Nil: "read_output [] = Inl TruncatedInput"
  by (simp add: read_output_def funpack_def)

lemma read_outputs_two_declared:
  "read_outputs 2 [5,0,0,0,0,0,0,0, 0] [] =
     (Some TruncatedInput, [\<lparr>amount = 5, script_pub_key = []\<rparr>], [])"
  by (simp add: read_outputs_numeral read_output_Nil read_output_def funpack_def)

lemma read_inputs_one:
  "read_inputs 1 (coinbase_input_bytes @ rest) [] = (None, [coinbase_input], rest)"
  by (simp add: read_input_coinbase)

lemma length_coinbase_input_bytes: "length coinbase_input_bytes = 43"
  by (simp add: coinbase_input_bytes_def)

theorem disassemble_count_too_large_witness:
  "varlen_decode (drop 4 tx_two_declared) = Inr (2, coinbase_input_bytes)
   \<and> length coinbase_input_bytes < 41 * 2
   \<and> fst (disassemble (snd (init None)) (Some tx_two_declared) False None) = Some TruncatedInput
   \<and> inputs (snd (disassemble (snd (init None)) (Some tx_two_declared) False None)) = [coinbase_input]
   \<and> varlen_decode (drop 4 tx_two_outputs_declared)
        = Inr (1, coinbase_input_bytes @ [2, 5,0,0,0,0,0,0,0, 0])
   \<and> read_inputs 1 (coinbase_input_bytes @ [2, 5,0,0,0,0,0,0,0, 0]) []
        = (None, [coinbase_input], [2, 5,0,0,0,0,0,0,0, 0])
   \<and> varlen_decode [2, 5,0,0,0,0,0,0,0, 0] = Inr (2, [5,0,0,0,0,0,0,0, 0])
   \<and> length [5,0,0,0,0,0,0,0, 0 :: byte] < 9 * 2
   \<and> fst (disassemble (snd (init None)) (Some tx_two_outputs_declared) False None) = Some TruncatedInput
   \<and> outputs (snd (disassemble (snd (init None)) (Some tx_two_outputs_declared) False None))
        = [\<lparr>amount = 5, script_pub_key = []\<rparr>]"
proof -
  have a: "varlen_decode (drop 4 tx_two_declared) = Inr (2, coinbase_input_bytes)"
    by (simp add: tx_two_declared_def)
  have b: "varlen_decode (drop 4 tx_two_outputs_declared)
        = Inr (1, coinbase_input_bytes @ [2, 5,0,0,0,0,0,0,0, 0])"
    by (simp add: tx_two_outputs_declared_def)
  have c: "varlen_decode [2, 5,0,0,0,0,0,0,0, 0] = Inr (2, [5,0,0,0,0,0,0,0, 0])" by simp
  note ri = read_inputs_one [of "[2, 5,0,0,0,0,0,0,0, 0]"]
  from disassemble_count_too_large [OF a, of "snd (init None)" False None]
    disassemble_count_too_large [OF b, of "snd (init None)" False None]
    a b c ri
  show ?thesis
    by (simp add: length_coinbase_input_bytes read_inputs_two_declared read_outputs_two_declared)
qed

text \<open>C5, counterexample: two inputs are declared and 43 bytes remain. The first input is read
  and stored, and the failure is \<open>TruncatedInput\<close> in the second pass of the loop, not a
  rejection before the loop.\<close>

theorem disassemble_count_unchecked:
  "varlen_decode (drop 4 tx_two_declared) = Inr (2, coinbase_input_bytes)
   \<and> length coinbase_input_bytes < 2 * 41
   \<and> disassemble (snd (init None)) (Some tx_two_declared) False None =
       (Some TruncatedInput,
        \<lparr>priv_raw = Some tx_two_declared, inputs = [coinbase_input], outputs = [], locktime = 0,
          fees = None, version = 1, priv_hash = None\<rparr>)
   \<and> TruncatedInput \<noteq> AssertionError"
  by (simp add: init_def tx_two_declared_def disassemble_def funpack_def read_inputs_two_declared
      length_coinbase_input_bytes)

text \<open>C6, counterexample: a complete transaction with one trailing byte fails at the assertion,
  after the version, the lock time and the raw buffer of the object have been overwritten.\<close>

theorem disassemble_not_atomic:
  "disassemble (snd (init None)) (Some tx_trailing) False None =
     (Some AssertionError,
      \<lparr>priv_raw = Some tx_trailing, inputs = [], outputs = [], locktime = 7, fees = None,
        version = 2, priv_hash = None\<rparr>)
   \<and> version (snd (init None)) = 1 \<and> locktime (snd (init None)) = 0
   \<and> priv_raw (snd (init None)) = None"
  by (simp add: init_def tx_trailing_def disassemble_def funpack_def disassemble_outputs_def
      disassemble_tail_def)

theorem disassemble_failure_state_witness:
  "fst (disassemble (snd (init None)) (Some tx_two_declared) False None) = Some TruncatedInput
   \<and> priv_raw (snd (disassemble (snd (init None)) (Some tx_two_declared) False None)) = Some tx_two_declared
   \<and> locktime (snd (disassemble (snd (init None)) (Some tx_two_declared) False None)) = 0
   \<and> priv_hash (snd (disassemble (snd (init None)) (Some tx_two_declared) False None)) = None
   \<and> fst (disassemble (snd (init None)) (Some [1, 0]) False None) = Some TruncatedInput
   \<and> version (snd (disassemble (snd (init None)) (Some [1, 0]) False None)) = 1
   \<and> inputs (snd (disassemble (snd (init None)) (Some [1, 0]) False None)) = []
   \<and> outputs (snd (disassemble (snd (init None)) (Some [1, 0]) False None)) = []"
proof -
  have a: "fst (disassemble (snd (init None)) (Some tx_two_declared) False None) = Some TruncatedInput"
    by (simp add: init_def tx_two_declared_def disassemble_def funpack_def read_inputs_two_declared)
  have b: "fst (disassemble (snd (init None)) (Some [1, 0]) False None) = Some TruncatedInput"
    by (simp add: init_def disassemble_def funpack_def)
  have c: "tx_two_declared \<noteq> []" by (simp add: tx_two_declared_def)
  from disassemble_failure_state [OF a] disassemble_failure_state [OF b] a b c
  show ?thesis by (simp add: init_def)
qed

text \<open>C7: after \<open>disassemble\<close> with \<open>dump_raw\<close>, and on an empty construction, \<open>_raw\<close> and
  \<open>_hash\<close> are both \<open>None\<close>; \<open>hash\<close> reads \<open>_raw\<close> and not the property \<open>raw\<close>, and
  fails with \<open>TypeError\<close>, although \<open>raw\<close> would rebuild the buffer.\<close>

theorem hash_without_raw:
  "disassemble (snd (init None)) (Some tx_empty) True None =
     (None, \<lparr>priv_raw = None, inputs = [], outputs = [], locktime = 0, fees = None,
             version = 1, priv_hash = None\<rparr>)
   \<and> hash sha256 (snd (disassemble (snd (init None)) (Some tx_empty) True None)) = Inl TypeError
   \<and> hash sha256 (snd (init None)) = Inl TypeError
   \<and> raw (snd (disassemble (snd (init None)) (Some tx_empty) True None)) =
       Inr (tx_empty, \<lparr>priv_raw = Some tx_empty, inputs = [], outputs = [], locktime = 0,
                        fees = None, version = 1, priv_hash = None\<rparr>)"
proof -
  have d: "disassemble (snd (init None)) (Some tx_empty) True None =
     (None, \<lparr>priv_raw = None, inputs = [], outputs = [], locktime = 0, fees = None,
             version = 1, priv_hash = None\<rparr>)"
    by (simp add: init_def tx_empty_def disassemble_def funpack_def disassemble_outputs_def
        disassemble_tail_def)
  have a: "assemble \<lparr>priv_raw = None, inputs = [], outputs = [], locktime = 0, fees = None,
                  version = 1, priv_hash = None\<rparr> = Inr (tx_empty, \<lparr>priv_raw = Some tx_empty, inputs = [], outputs = [], locktime = 0, fees = None,
                  version = 1, priv_hash = None\<rparr>)"
    by (simp add: assemble_def pack_def varlen_encode_def tx_empty_def le_encode_numeral)
  show ?thesis
    unfolding d by (simp add: hash_def raw_def a init_def)
qed

section \<open>Trailing bytes\<close>

lemma read_input_append:
  assumes "read_input d = Inr (inp, d')"
  shows "read_input (d @ x) = Inr (inp, d' @ x)"
proof -
  from assms obtain L d1 where d: "36 \<le> length d" and v: "varlen_decode (drop 36 d) = Inr (L, d1)"
    and l: "L + 4 \<le> length d1"
    and inp: "inp = \<lparr>prevout_hash = take 32 d, prevout_idx = int (le_decode (take 4 (drop 32 d))),
            script_sig = take L d1, seqno = int (le_decode (take 4 (drop L d1)))\<rparr>"
    and d': "d' = drop (L + 4) d1"
    by (rule read_input_InrE)
  note v' = varlen_decode_append [OF v, of x]
  from d l show ?thesis
    by (simp add: read_input_def v' funpack_def inp d')
qed

lemma read_inputs_append:
  "read_inputs n d acc = (None, ins, d') \<Longrightarrow> read_inputs n (d @ x) acc = (None, ins, d' @ x)"
proof (induction n arbitrary: d acc)
  case 0 then show ?case by simp
next
  case (Suc n)
  from Suc.prems obtain inp dm where r: "read_input d = Inr (inp, dm)"
    and rest: "read_inputs n dm (acc @ [inp]) = (None, ins, d')"
    by (auto split: sum.splits prod.splits)
  from Suc.IH [OF rest] read_input_append [OF r, of x] show ?case by simp
qed

lemma read_output_append:
  assumes "read_output d = Inr (out, d')" "d' \<noteq> []"
  shows "read_output (d @ x) = Inr (out, d' @ x)"
proof -
  from assms(1) obtain P d1 where d: "8 \<le> length d" and v: "varlen_decode (drop 8 d) = Inr (P, d1)"
    and out: "out = \<lparr>amount = int (le_decode (take 8 d)), script_pub_key = take P d1\<rparr>"
    and d': "d' = drop P d1"
    by (rule read_output_InrE)
  from assms(2) d' have p: "P < length d1" by simp
  note v' = varlen_decode_append [OF v, of x]
  from d p show ?thesis
    by (simp add: read_output_def v' funpack_def out d')
qed

lemma read_outputs_append:
  "read_outputs n d acc = (None, outs, d') \<Longrightarrow> d' \<noteq> [] \<Longrightarrow>
     read_outputs n (d @ x) acc = (None, outs, d' @ x)"
proof (induction n arbitrary: d acc)
  case 0 then show ?case by simp
next
  case (Suc n)
  from Suc.prems(1) obtain out dm where r: "read_output d = Inr (out, dm)"
    and rest: "read_outputs n dm (acc @ [out]) = (None, outs, d')"
    by (auto split: sum.splits prod.splits)
  from read_outputs_length [OF rest] Suc.prems(2) have "dm \<noteq> []" by auto
  from Suc.IH [OF rest Suc.prems(2)] read_output_append [OF r this, of x] show ?case by simp
qed

text \<open>What acceptance of a buffer means, stage by stage.\<close>

lemma disassemble_tail_None_iff:
  "fst (disassemble_tail s dr d) = None \<longleftrightarrow> length d = 4"
  by (auto simp: disassemble_tail_def funpack_def Let_def)

lemma disassemble_accepts_iff:
  assumes "B \<noteq> []"
  shows "fst (disassemble s (Some B) dr f) = None \<longleftrightarrow>
     (\<exists>N d1 ins d2 M d3 outs d4. varlen_decode (drop 4 B) = Inr (N, d1)
        \<and> read_inputs N d1 [] = (None, ins, d2) \<and> varlen_decode d2 = Inr (M, d3)
        \<and> read_outputs M d3 [] = (None, outs, d4) \<and> length d4 = 4)"
proof (cases "4 < length B")
  case False
  then have "drop 4 B = []" by simp
  moreover from False assms have "fst (disassemble s (Some B) dr f) \<noteq> None"
    by (auto simp: disassemble_def Let_def funpack_def split: sum.splits)
  ultimately show ?thesis by simp
next
  case True
  note D = disassemble_buffer [OF True, of s dr f]
  show ?thesis
    by (auto simp: D disassemble_outputs_def disassemble_tail_None_iff
        split: sum.splits prod.splits option.splits)
qed

lemma disassemble_parsed:
  assumes "varlen_decode (drop 4 B) = Inr (N, d1)" "read_inputs N d1 [] = (None, ins, d2)"
    "varlen_decode d2 = Inr (M, d3)" "read_outputs M d3 [] = (None, outs, d4)" "4 \<le> length d4"
  shows "fst (disassemble s (Some B) dr f) = (if length d4 = 4 then None else Some AssertionError)"
proof -
  note D = disassemble_buffer [OF varlen_decode_drop4 [OF assms(1)], of s dr f]
  from assms show ?thesis
    by (simp add: D disassemble_outputs_def disassemble_tail_def funpack_def Let_def)
qed

text \<open>C3: if \<open>disassemble\<close> accepts a buffer, then on the same buffer with one or more bytes
  appended it reads the same transaction, finds more than the four bytes of the lock time
  left, and fails at the assertion of line 87 (the specification's \<open>MalformedTransaction\<close>),
  whatever the object and the other arguments.\<close>

theorem trailing_bytes_rejected:
  assumes "B \<noteq> []" "fst (disassemble self (Some B) dump_raw fees_arg) = None" "extra \<noteq> []"
  shows "fst (disassemble self' (Some (B @ extra)) dump_raw' fees_arg') = Some AssertionError"
proof -
  from assms(1,2) obtain N d1 ins d2 M d3 outs d4 where
    n: "varlen_decode (drop 4 B) = Inr (N, d1)" and ri: "read_inputs N d1 [] = (None, ins, d2)"
    and m: "varlen_decode d2 = Inr (M, d3)" and ro: "read_outputs M d3 [] = (None, outs, d4)"
    and l: "length d4 = 4"
    unfolding disassemble_accepts_iff [OF assms(1)] by blast
  from varlen_decode_drop4 [OF n] have len: "4 < length B" .
  with varlen_decode_append [OF n, of extra]
  have n': "varlen_decode (drop 4 (B @ extra)) = Inr (N, d1 @ extra)" by simp
  note ri' = read_inputs_append [OF ri, of extra]
  note m' = varlen_decode_append [OF m, of extra]
  from l have "d4 \<noteq> []" by auto
  note ro' = read_outputs_append [OF ro this, of extra]
  from l have "4 \<le> length (d4 @ extra)" by simp
  from disassemble_parsed [OF n' ri' m' ro' this, of self' dump_raw' fees_arg'] l assms(3)
  show ?thesis by simp
qed

lemma tx_one_count: "varlen_decode (drop 4 tx_one) =
    Inr (1, coinbase_input_bytes @ [1, 5,0,0,0,0,0,0,0, 1, 0x51, 9,0,0,0])"
  by (simp add: tx_one_def)

lemma tx_one_outputs:
  "read_outputs 1 [5,0,0,0,0,0,0,0, 1, 0x51, 9,0,0,0] [] =
     (None, [\<lparr>amount = 5, script_pub_key = [0x51]\<rparr>], [9,0,0,0])"
  by (simp add: read_output_def funpack_def)

lemma tx_one_accepted: "fst (disassemble s (Some tx_one) dr f) = None"
  using disassemble_parsed [OF tx_one_count read_inputs_one _ tx_one_outputs, of s dr f]
  by simp

lemma tx_one_nonempty: "tx_one \<noteq> []"
  by (simp add: tx_one_def)

theorem trailing_bytes_rejected_witness:
  "tx_one \<noteq> [] \<and> fst (disassemble (snd (init None)) (Some tx_one) False None) = None
   \<and> [0xff :: byte] \<noteq> []
   \<and> fst (disassemble (snd (init None)) (Some (tx_one @ [0xff])) False None) = Some AssertionError"
proof -
  have a: "fst (disassemble (snd (init None)) (Some tx_one) False None) = None"
    by (rule tx_one_accepted)
  from trailing_bytes_rejected [OF tx_one_nonempty a, of "[0xff]" "snd (init None)" False None]
  show ?thesis by (simp add: tx_one_nonempty a)
qed

section \<open>Script lengths\<close>

text \<open>The loop over the inputs, cut in two.\<close>

lemma read_inputs_add:
  "read_inputs (k + m) d acc =
     (case read_inputs k d acc of
        (None, ins, d') \<Rightarrow> read_inputs m d' ins
      | (Some e, ins, d') \<Rightarrow> (Some e, ins, d'))"
  by (induction k arbitrary: d acc) (simp_all split: sum.splits prod.splits)

lemma read_inputs_extends:
  "read_inputs n d acc = (r, ins, d') \<Longrightarrow>
     \<exists>new. ins = acc @ new \<and> length new \<le> n \<and> (r = None \<longrightarrow> length new = n)"
proof (induction n arbitrary: d acc)
  case 0 then show ?case by simp
next
  case (Suc n)
  show ?case
  proof (cases "read_input d")
    case (Inl e) with Suc.prems show ?thesis by auto
  next
    case (Inr p)
    obtain inp dm where p: "p = (inp, dm)" by (cases p)
    with Inr Suc.prems have "read_inputs n dm (acc @ [inp]) = (r, ins, d')" by simp
    from Suc.IH [OF this] obtain new where "ins = (acc @ [inp]) @ new" "length new \<le> n"
      "r = None \<longrightarrow> length new = n" by blast
    then have "ins = acc @ (inp # new) \<and> length (inp # new) \<le> Suc n
        \<and> (r = None \<longrightarrow> length (inp # new) = Suc n)" by simp
    then show ?thesis by blast
  qed
qed

lemma disassemble_inputs:
  assumes "varlen_decode (drop 4 data) = Inr (N, d0)"
  shows "inputs (snd (disassemble self (Some data) dr f)) = fst (snd (read_inputs N d0 []))"
    and "fst (read_inputs N d0 []) = Some e \<Longrightarrow> fst (disassemble self (Some data) dr f) = Some e"
proof -
  note D = disassemble_buffer [OF varlen_decode_drop4 [OF assms], of self dr f]
  obtain r ins d2 where ri: "read_inputs N d0 [] = (r, ins, d2)" by (cases "read_inputs N d0 []")
  show "inputs (snd (disassemble self (Some data) dr f)) = fst (snd (read_inputs N d0 []))"
    using assms ri by (cases r) (simp_all add: D disassemble_outputs_inputs)
  show "fst (disassemble self (Some data) dr f) = Some e" if "fst (read_inputs N d0 []) = Some e"
    using assms ri that by (simp add: D)
qed

text \<open>C4: let the first \<open>k\<close> of the \<open>N\<close> declared inputs be read, and let the next input
  declare a script of \<open>L\<close> bytes. If fewer than \<open>L\<close> bytes follow the varint,
  \<open>disassemble\<close> fails with \<open>TruncatedInput\<close>; and whenever the object ends up with an
  input at position \<open>k\<close>, after a success or a later failure, the script of that input
  has exactly \<open>L\<close> bytes.\<close>

theorem script_length_declared:
  assumes "varlen_decode (drop 4 data) = Inr (N, d0)" and "k < N"
    and "read_inputs k d0 [] = (None, ins_k, d_k)"
    and "varlen_decode (drop 36 d_k) = Inr (L, d1)"
  shows "(length d1 < L \<longrightarrow>
            fst (disassemble self (Some data) dump_raw fees_arg) = Some TruncatedInput)
       \<and> (k < length (inputs (snd (disassemble self (Some data) dump_raw fees_arg))) \<longrightarrow>
            length (script_sig (inputs (snd (disassemble self (Some data) dump_raw fees_arg)) ! k)) = L)"
proof -
  let ?R = "disassemble self (Some data) dump_raw fees_arg"
  from assms(2) obtain m where N: "N = k + Suc m" by (auto simp: less_iff_Suc_add)
  from read_inputs_extends [OF assms(3)] have lk: "length ins_k = k" by auto
  have split: "read_inputs N d0 [] = read_inputs (Suc m) d_k ins_k"
    unfolding N read_inputs_add by (simp add: assms(3))
  show ?thesis
  proof (cases "read_input d_k")
    case (Inl e)
    then have e: "e = TruncatedInput" by (rule read_input_error)
    from Inl split e have r: "read_inputs N d0 [] = (Some TruncatedInput, ins_k, d_k)" by simp
    from r have "fst (read_inputs N d0 []) = Some TruncatedInput" by simp
    from disassemble_inputs(2) [OF assms(1) this] disassemble_inputs(1) [OF assms(1)] r lk
    show ?thesis by simp
  next
    case (Inr p)
    obtain inp dm where p: "p = (inp, dm)" by (cases p)
    from Inr p obtain L' d1' where v: "varlen_decode (drop 36 d_k) = Inr (L', d1')"
      and l: "L' + 4 \<le> length d1'" and inp: "script_sig inp = take L' d1'"
      by (auto elim!: read_input_InrE)
    from v assms(4) have same: "L' = L" "d1' = d1" by simp_all
    from l same inp have sl: "length (script_sig inp) = L" and long: "\<not> length d1 < L" by simp_all
    obtain r ins d2 where rest: "read_inputs m dm (ins_k @ [inp]) = (r, ins, d2)"
      by (cases "read_inputs m dm (ins_k @ [inp])")
    from read_inputs_extends [OF rest] obtain new where "ins = (ins_k @ [inp]) @ new" by blast
    with lk have "ins ! k = inp" by (simp add: nth_append)
    moreover from Inr p rest split have "read_inputs N d0 [] = (r, ins, d2)" by simp
    with disassemble_inputs(1) [OF assms(1)]
    have "inputs (snd ?R) = ins" by simp
    ultimately show ?thesis using sl long by simp
  qed
qed

theorem script_length_declared_witness:
  "varlen_decode (drop 4 tx_two_declared) = Inr (2, coinbase_input_bytes) \<and> (0::nat) < 2
   \<and> read_inputs 0 coinbase_input_bytes [] = (None, [], coinbase_input_bytes)
   \<and> varlen_decode (drop 36 coinbase_input_bytes) = Inr (2, [1, 2, 0,0,0,0])
   \<and> 0 < length (inputs (snd (disassemble (snd (init None)) (Some tx_two_declared) False None)))
   \<and> length (script_sig (inputs (snd (disassemble (snd (init None)) (Some tx_two_declared) False None)) ! 0)) = 2
   \<and> varlen_decode (drop 4 tx_short_script) = Inr (1, replicate 32 0 @ [0xff,0xff,0xff,0xff, 5, 1, 2])
   \<and> (0::nat) < 1
   \<and> varlen_decode (drop 36 (replicate 32 0 @ [0xff,0xff,0xff,0xff, 5, 1, 2])) = Inr (5, [1, 2])
   \<and> length [1, 2 :: byte] < 5
   \<and> fst (disassemble (snd (init None)) (Some tx_short_script) False None) = Some TruncatedInput"
proof -
  have a: "varlen_decode (drop 4 tx_two_declared) = Inr (2, coinbase_input_bytes)"
    by (simp add: tx_two_declared_def)
  have b: "read_inputs 0 coinbase_input_bytes [] = (None, [], coinbase_input_bytes)" by simp
  have c: "varlen_decode (drop 36 coinbase_input_bytes) = Inr (2, [1, 2, 0,0,0,0])"
    by (simp add: coinbase_input_bytes_def)
  have d: "inputs (snd (disassemble (snd (init None)) (Some tx_two_declared) False None)) = [coinbase_input]"
    by (simp add: init_def tx_two_declared_def disassemble_def funpack_def read_inputs_two_declared)
  have a': "varlen_decode (drop 4 tx_short_script) = Inr (1, replicate 32 0 @ [0xff,0xff,0xff,0xff, 5, 1, 2])"
    by (simp add: tx_short_script_def)
  have b': "read_inputs 0 (replicate 32 0 @ [0xff,0xff,0xff,0xff, 5, 1, 2]) [] =
      (None, [], replicate 32 0 @ [0xff,0xff,0xff,0xff, 5, 1, 2])" by simp
  have c': "varlen_decode (drop 36 (replicate 32 0 @ [0xff,0xff,0xff,0xff, 5, 1, 2])) = Inr (5, [1, 2])"
    by simp
  have two: "(0::nat) < 2" and one: "(0::nat) < 1" by simp_all
  from script_length_declared [OF a two b c, of "snd (init None)" False None]
    script_length_declared [OF a' one b' c', of "snd (init None)" False None]
    a b c d a' c'
  show ?thesis by simp
qed

section \<open>The round trip\<close>

text \<open>Packing what was unpacked.\<close>

lemma pack_le_decode: "length bs = w \<Longrightarrow> pack w (int (le_decode bs)) = Inr bs"
proof -
  assume l: "length bs = w"
  have "le_decode bs < 256 ^ w" using le_decode_bound [of bs] l by simp
  also have "(256::nat) ^ w = 2 ^ (8 * w)" by (simp add: power_mult)
  finally have "int (le_decode bs) < 2 ^ (8 * w)"
    by (metis of_nat_less_iff of_nat_numeral of_nat_power)
  with le_encode_le_decode [of bs] l show ?thesis by (simp add: pack_def)
qed

lemma canon_varint_encode:
  assumes "canon_varint d" "varlen_decode d = Inr (v, rest)"
  shows "\<exists>pre. varlen_encode v = Inr pre \<and> d = pre @ rest"
proof -
  let ?k = "length d - length rest"
  from assms have "varlen_encode v = Inr (take ?k d)" by (simp add: canon_varint_def)
  moreover from varlen_decode_suffix [OF assms(2)] have "rest = drop ?k d" by simp
  then have "d = take ?k d @ rest" by (metis append_take_drop_id)
  ultimately show ?thesis by blast
qed

lemma read_input_assemble:
  assumes "read_input d = Inr (inp, d')" "canon_varint (drop 36 d)"
  shows "\<exists>pre. assemble_input inp = Inr pre \<and> d = pre @ d'"
proof -
  from assms(1) obtain L d1 where d: "36 \<le> length d" and v: "varlen_decode (drop 36 d) = Inr (L, d1)"
    and l: "L + 4 \<le> length d1"
    and inp: "inp = \<lparr>prevout_hash = take 32 d, prevout_idx = int (le_decode (take 4 (drop 32 d))),
            script_sig = take L d1, seqno = int (le_decode (take 4 (drop L d1)))\<rparr>"
    and d': "d' = drop (L + 4) d1"
    by (rule read_input_InrE)
  from canon_varint_encode [OF assms(2) v] obtain pv where pv: "varlen_encode L = Inr pv"
    and split: "drop 36 d = pv @ d1" by blast
  from d have p1: "pack 4 (int (le_decode (take 4 (drop 32 d)))) = Inr (take 4 (drop 32 d))"
    by (intro pack_le_decode) simp
  from l have p2: "pack 4 (int (le_decode (take 4 (drop L d1)))) = Inr (take 4 (drop L d1))"
    by (intro pack_le_decode) simp
  from l have len: "min (length d1) L = L" by simp
  have asm: "assemble_input inp =
      Inr (take 32 d @ take 4 (drop 32 d) @ pv @ take L d1 @ take 4 (drop L d1))"
    by (simp add: assemble_input_def inp p1 p2 len pv)
  have s1: "take 4 (drop 32 d) @ drop 36 d = drop 32 d"
    using append_take_drop_id [of 4 "drop 32 d"] by simp
  have s2: "take 4 (drop L d1) @ d' = drop L d1"
    using append_take_drop_id [of 4 "drop L d1"] by (simp add: d' add.commute)
  have "take L d1 @ take 4 (drop L d1) @ d' = d1"
    unfolding s2 by (rule append_take_drop_id)
  then have "pv @ take L d1 @ take 4 (drop L d1) @ d' = drop 36 d"
    unfolding split by (rule arg_cong)
  then have "take 4 (drop 32 d) @ pv @ take L d1 @ take 4 (drop L d1) @ d' = drop 32 d"
    using s1 by (simp only:)
  then have "take 32 d @ take 4 (drop 32 d) @ pv @ take L d1 @ take 4 (drop L d1) @ d' = d"
    by (simp only: append_take_drop_id)
  then have "d = (take 32 d @ take 4 (drop 32 d) @ pv @ take L d1 @ take 4 (drop L d1)) @ d'"
    by (simp only: append_assoc)
  with asm show ?thesis by blast
qed

lemma read_output_assemble:
  assumes "read_output d = Inr (out, d')" "canon_varint (drop 8 d)" "d' \<noteq> []"
  shows "\<exists>pre. assemble_output out = Inr pre \<and> d = pre @ d'"
proof -
  from assms(1) obtain P d1 where d: "8 \<le> length d" and v: "varlen_decode (drop 8 d) = Inr (P, d1)"
    and out: "out = \<lparr>amount = int (le_decode (take 8 d)), script_pub_key = take P d1\<rparr>"
    and d': "d' = drop P d1"
    by (rule read_output_InrE)
  from assms(3) d' have l: "P < length d1" by simp
  from canon_varint_encode [OF assms(2) v] obtain pv where pv: "varlen_encode P = Inr pv"
    and split: "drop 8 d = pv @ d1" by blast
  from d have p1: "pack 8 (int (le_decode (take 8 d))) = Inr (take 8 d)"
    by (intro pack_le_decode) simp
  from l have len: "min (length d1) P = P" by simp
  have asm: "assemble_output out = Inr (take 8 d @ pv @ take P d1)"
    by (simp add: assemble_output_def out p1 len pv)
  have "d = take 8 d @ drop 8 d" by simp
  also have "drop 8 d = pv @ d1" by (rule split)
  also have "d1 = take P d1 @ d'" by (simp add: d')
  finally have "d = (take 8 d @ pv @ take P d1) @ d'" by simp
  with asm show ?thesis by blast
qed

lemma read_inputs_assemble:
  "read_inputs n d acc = (None, ins, d') \<Longrightarrow> canon_inputs n d \<Longrightarrow>
     \<exists>new pre. ins = acc @ new \<and> length new = n \<and> d = pre @ d'
        \<and> (\<forall>buf. assemble_inputs new buf = Inr (buf @ pre))"
proof (induction n arbitrary: d acc)
  case 0
  then have "ins = acc @ [] \<and> length ([]::Input list) = 0 \<and> d = [] @ d'
      \<and> (\<forall>buf. assemble_inputs [] buf = Inr (buf @ []))" by simp
  then show ?case by blast
next
  case (Suc n)
  from Suc.prems(1) obtain inp dm where r: "read_input d = Inr (inp, dm)"
    and rest: "read_inputs n dm (acc @ [inp]) = (None, ins, d')"
    by (auto split: sum.splits prod.splits)
  from Suc.prems(2) r have cv: "canon_varint (drop 36 d)" and ci: "canon_inputs n dm" by simp_all
  from read_input_assemble [OF r cv] obtain p0 where p0: "assemble_input inp = Inr p0"
    and d: "d = p0 @ dm" by blast
  from Suc.IH [OF rest ci] obtain new pre where ins: "ins = (acc @ [inp]) @ new"
    and len: "length new = n" and dm: "dm = pre @ d'"
    and asm: "\<forall>buf. assemble_inputs new buf = Inr (buf @ pre)" by blast
  have "ins = acc @ (inp # new) \<and> length (inp # new) = Suc n \<and> d = (p0 @ pre) @ d'
      \<and> (\<forall>buf. assemble_inputs (inp # new) buf = Inr (buf @ (p0 @ pre)))"
    using ins len d dm asm p0 by simp
  then show ?case by blast
qed

lemma read_outputs_assemble:
  "read_outputs n d acc = (None, outs, d') \<Longrightarrow> canon_outputs n d \<Longrightarrow> d' \<noteq> [] \<Longrightarrow>
     \<exists>new pre. outs = acc @ new \<and> length new = n \<and> d = pre @ d'
        \<and> (\<forall>buf. assemble_outputs new buf = Inr (buf @ pre))"
proof (induction n arbitrary: d acc)
  case 0
  then have "outs = acc @ [] \<and> length ([]::Output list) = 0 \<and> d = [] @ d'
      \<and> (\<forall>buf. assemble_outputs [] buf = Inr (buf @ []))" by simp
  then show ?case by blast
next
  case (Suc n)
  from Suc.prems(1) obtain out dm where r: "read_output d = Inr (out, dm)"
    and rest: "read_outputs n dm (acc @ [out]) = (None, outs, d')"
    by (auto split: sum.splits prod.splits)
  from Suc.prems(2) r have cv: "canon_varint (drop 8 d)" and ci: "canon_outputs n dm" by simp_all
  from read_outputs_length [OF rest] Suc.prems(3) have ne: "dm \<noteq> []" by auto
  from read_output_assemble [OF r cv ne] obtain p0 where p0: "assemble_output out = Inr p0"
    and d: "d = p0 @ dm" by blast
  from Suc.IH [OF rest ci Suc.prems(3)] obtain new pre where outs: "outs = (acc @ [out]) @ new"
    and len: "length new = n" and dm: "dm = pre @ d'"
    and asm: "\<forall>buf. assemble_outputs new buf = Inr (buf @ pre)" by blast
  have "outs = acc @ (out # new) \<and> length (out # new) = Suc n \<and> d = (p0 @ pre) @ d'
      \<and> (\<forall>buf. assemble_outputs (out # new) buf = Inr (buf @ (p0 @ pre)))"
    using outs len d dm asm p0 by simp
  then show ?case by blast
qed

lemma disassemble_parsed_fields:
  assumes "varlen_decode (drop 4 B) = Inr (N, d1)" "read_inputs N d1 [] = (None, ins, d2)"
    "varlen_decode d2 = Inr (M, d3)" "read_outputs M d3 [] = (None, outs, d4)" "length d4 = 4"
  shows "version (snd (disassemble s (Some B) dr f)) = int (le_decode (take 4 B))"
    and "inputs (snd (disassemble s (Some B) dr f)) = ins"
    and "outputs (snd (disassemble s (Some B) dr f)) = outs"
    and "locktime (snd (disassemble s (Some B) dr f)) = int (le_decode d4)"
proof -
  note D = disassemble_buffer [OF varlen_decode_drop4 [OF assms(1)], of s dr f]
  from assms show "version (snd (disassemble s (Some B) dr f)) = int (le_decode (take 4 B))"
    by (simp add: D disassemble_outputs_def disassemble_tail_def funpack_def Let_def)
  from assms show "inputs (snd (disassemble s (Some B) dr f)) = ins"
    by (simp add: D disassemble_outputs_def disassemble_tail_def funpack_def Let_def)
  from assms show "outputs (snd (disassemble s (Some B) dr f)) = outs"
    by (simp add: D disassemble_outputs_def disassemble_tail_def funpack_def Let_def)
  from assms show "locktime (snd (disassemble s (Some B) dr f)) = int (le_decode d4)"
    by (simp add: D disassemble_outputs_def disassemble_tail_def funpack_def Let_def)
qed

text \<open>C1, as amended: for every non-empty buffer that \<open>disassemble\<close> accepts and whose varints are
  all canonical, \<open>assemble\<close> on the resulting object returns the buffer itself, and stores
  it as the raw buffer.\<close>

theorem assemble_disassemble_canonical:
  assumes "B \<noteq> []" and "fst (disassemble self (Some B) dump_raw fees_arg) = None"
    and "canonical_varints B"
  shows "assemble (snd (disassemble self (Some B) dump_raw fees_arg)) =
           Inr (B, (snd (disassemble self (Some B) dump_raw fees_arg))
                     \<lparr>priv_raw := Some B, priv_hash := None\<rparr>)"
proof -
  let ?T = "snd (disassemble self (Some B) dump_raw fees_arg)"
  from assms(1,2) obtain N d1 ins d2 M d3 outs d4 where
    n: "varlen_decode (drop 4 B) = Inr (N, d1)" and ri: "read_inputs N d1 [] = (None, ins, d2)"
    and m: "varlen_decode d2 = Inr (M, d3)" and ro: "read_outputs M d3 [] = (None, outs, d4)"
    and l: "length d4 = 4"
    unfolding disassemble_accepts_iff [OF assms(1)] by blast
  from assms(3) n ri m have cn: "canon_varint (drop 4 B)" and ci: "canon_inputs N d1"
    and cm: "canon_varint d2" and co: "canon_outputs M d3"
    by (simp_all add: canonical_varints_def)
  note F = disassemble_parsed_fields [OF n ri m ro l, of self dump_raw fees_arg]
  from varlen_decode_drop4 [OF n] have len: "4 < length B" .
  from canon_varint_encode [OF cn n] obtain pN where pN: "varlen_encode N = Inr pN"
    and b1: "drop 4 B = pN @ d1" by blast
  from read_inputs_assemble [OF ri ci] obtain pre_i where li: "length ins = N"
    and b2: "d1 = pre_i @ d2" and ai: "\<forall>buf. assemble_inputs ins buf = Inr (buf @ pre_i)"
    by auto
  from canon_varint_encode [OF cm m] obtain pM where pM: "varlen_encode M = Inr pM"
    and b3: "d2 = pM @ d3" by blast
  from l have "d4 \<noteq> []" by auto
  from read_outputs_assemble [OF ro co this] obtain pre_o where lo: "length outs = M"
    and b4: "d3 = pre_o @ d4" and ao: "\<forall>buf. assemble_outputs outs buf = Inr (buf @ pre_o)"
    by auto
  from len have pv: "pack 4 (int (le_decode (take 4 B))) = Inr (take 4 B)"
    by (intro pack_le_decode) simp
  from l have pl: "pack 4 (int (le_decode d4)) = Inr d4" by (rule pack_le_decode)
  have "take 4 B @ drop 4 B = B" by (rule append_take_drop_id)
  then have B: "take 4 B @ pN @ pre_i @ pM @ pre_o @ d4 = B"
    unfolding b1 b2 b3 b4 .
  have "assemble ?T = Inr (take 4 B @ pN @ pre_i @ pM @ pre_o @ d4,
      ?T\<lparr>priv_raw := Some (take 4 B @ pN @ pre_i @ pM @ pre_o @ d4), priv_hash := None\<rparr>)"
    by (simp add: assemble_def F pv li pN ai lo pM ao pl)
  then show ?thesis unfolding B .
qed

lemma tx_one_canonical: "canonical_varints tx_one"
  by (simp add: canonical_varints_def tx_one_count read_inputs_one canon_varint_def
      varlen_encode_def length_coinbase_input_bytes read_input_coinbase read_output_def funpack_def)
    (simp add: tx_one_def coinbase_input_bytes_def varlen_encode_def)

theorem assemble_disassemble_canonical_witness:
  "tx_one \<noteq> [] \<and> fst (disassemble (snd (init None)) (Some tx_one) False None) = None
   \<and> canonical_varints tx_one
   \<and> assemble (snd (disassemble (snd (init None)) (Some tx_one) False None)) =
       Inr (tx_one, (snd (disassemble (snd (init None)) (Some tx_one) False None))
                      \<lparr>priv_raw := Some tx_one, priv_hash := None\<rparr>)"
proof -
  have a: "fst (disassemble (snd (init None)) (Some tx_one) False None) = None"
    by (rule tx_one_accepted)
  from assemble_disassemble_canonical [OF tx_one_nonempty a tx_one_canonical]
  show ?thesis by (simp add: tx_one_nonempty a tx_one_canonical)
qed

text \<open>C1, counterexample: a buffer that writes the input count 0 in three bytes (0xfd 0x00 0x00)
  is accepted, and \<open>assemble\<close> returns the ten bytes of the canonical form, not the twelve
  bytes that were read.\<close>

theorem assemble_normalises_varint:
  "disassemble (snd (init None)) (Some tx_noncanonical) False None =
     (None, \<lparr>priv_raw = Some tx_noncanonical, inputs = [], outputs = [], locktime = 0,
             fees = None, version = 1, priv_hash = None\<rparr>)
   \<and> assemble (snd (disassemble (snd (init None)) (Some tx_noncanonical) False None)) =
       Inr (tx_empty, \<lparr>priv_raw = Some tx_empty, inputs = [], outputs = [], locktime = 0,
                        fees = None, version = 1, priv_hash = None\<rparr>)
   \<and> tx_empty \<noteq> tx_noncanonical"
proof -
  have d: "disassemble (snd (init None)) (Some tx_noncanonical) False None =
     (None, \<lparr>priv_raw = Some tx_noncanonical, inputs = [], outputs = [], locktime = 0,
             fees = None, version = 1, priv_hash = None\<rparr>)"
    by (simp add: init_def tx_noncanonical_def disassemble_def funpack_def disassemble_outputs_def
        disassemble_tail_def)
  have a: "assemble \<lparr>priv_raw = Some tx_noncanonical, inputs = [], outputs = [], locktime = 0,
             fees = None, version = 1, priv_hash = None\<rparr> =
       Inr (tx_empty, \<lparr>priv_raw = Some tx_empty, inputs = [], outputs = [], locktime = 0,
                        fees = None, version = 1, priv_hash = None\<rparr>)"
    by (simp add: assemble_def pack_def varlen_encode_def tx_empty_def le_encode_numeral)
  have n: "tx_empty \<noteq> tx_noncanonical" by (simp add: tx_empty_def tx_noncanonical_def)
  show ?thesis unfolding d using a n by simp
qed

end
